theory Spec2Isabelle
  imports Complex_Main
begin

section \<open>The refactor page: data model\<close>

text \<open>
  The React page keeps its state in \<open>useState\<close> hooks. The model gathers them in one
  record; every handler is a function from the state before to the state after.
  \<^verbatim>\<open>
  type AgentStatus = "pending" | "running" | "completed" | "failed";
  interface Agent { id: string; name: string; emoji: string;
                    status: AgentStatus; message?: string; }
  \<close>
  The emoji of an agent is kept as its list of Unicode code points. The type
  \<open>AgentStatus\<close> exists at compile time only: \<open>ws.onmessage\<close> stores the \<open>status\<close> member
  of a parsed message as it arrives, so at run time an agent can carry any other value,
  which \<open>Other_status\<close> keeps as its text.
\<close>

datatype AgentStatus = Pending | Running | Completed | Failed | Other_status string

text \<open>The four values the type \<open>AgentStatus\<close> lists.\<close>

fun listed_status :: "AgentStatus \<Rightarrow> bool" where
  "listed_status (Other_status v) = False"
| "listed_status st = True"

record Agent =
  agent_id :: string
  agent_name :: string
  emoji :: "nat list"
  status :: AgentStatus
  message :: "string option"

datatype Language = Cpp | Java

fun language_str :: "Language \<Rightarrow> string" where
  "language_str Cpp = ''cpp''"
| "language_str Java = ''java''"

text \<open>
  The hooks of \<open>RefactorPage\<close>. \<open>wsClosed\<close> records that \<open>ws.close()\<close> has been called on
  the socket held in \<open>wsRef\<close>; \<open>wsUrl\<close> is the address the socket was opened on. The
  simulated page (the variant without a backend) uses the hooks \<open>legacyCode\<close>,
  \<open>modernCode\<close>, \<open>language\<close>, \<open>isProcessing\<close> and \<open>agents\<close> only.
\<close>

record Page =
  legacyCode :: string
  modernCode :: string
  language :: Language
  isProcessing :: bool
  connected :: bool
  error :: "string option"
  modelLoaded :: bool
  useMock :: bool
  fileName :: "string option"
  agents :: "Agent list"
  wsUrl :: "string option"
  wsClosed :: bool

definition initial_agents :: "Agent list" where
  "initial_agents =
    [\<lparr>agent_id = ''archaeologist'', agent_name = ''Archaeologist'', emoji = [127963, 65039],
       status = Pending, message = None\<rparr>,
     \<lparr>agent_id = ''architect'', agent_name = ''Architect'', emoji = [128208],
       status = Pending, message = None\<rparr>,
     \<lparr>agent_id = ''engineer'', agent_name = ''Engineer'', emoji = [9881, 65039],
       status = Pending, message = None\<rparr>,
     \<lparr>agent_id = ''validator'', agent_name = ''Validator'', emoji = [9989],
       status = Pending, message = None\<rparr>,
     \<lparr>agent_id = ''scribe'', agent_name = ''Scribe'', emoji = [128220],
       status = Pending, message = None\<rparr>]"

text \<open>The state on mount; the sample shown in the editor is a parameter.\<close>

definition initial_page :: "string \<Rightarrow> Page" where
  "initial_page sample_cpp =
    \<lparr>legacyCode = sample_cpp, modernCode = [], language = Cpp, isProcessing = False,
     connected = False, error = None, modelLoaded = False, useMock = True,
     fileName = None, agents = initial_agents, wsUrl = None, wsClosed = False\<rparr>"

section \<open>Progress events\<close>

text \<open>
  \<^verbatim>\<open>
  case "agent_update":
      setAgents((prev) =>
          prev.map((a) =>
              a.id === data.agent_id
                  ? { ...a, status: data.status, message: data.message }
                  : a));
  \<close>
\<close>

definition agent_update :: "string \<Rightarrow> AgentStatus \<Rightarrow> string option \<Rightarrow> Agent list \<Rightarrow> Agent list" where
  "agent_update aid st msg prev =
     map (\<lambda>a. if agent_id a = aid then a\<lparr>status := st, message := msg\<rparr> else a) prev"

text \<open>
  The messages of the socket, by their \<open>type\<close> field; a message of any other type falls
  through the \<open>switch\<close>, which has no default case.
\<close>

datatype WsMessage =
    Agent_update string AgentStatus "string option"
  | Job_complete string
  | Job_error string
  | Other_message string

fun onmessage :: "Page \<Rightarrow> WsMessage \<Rightarrow> Page" where
  "onmessage s (Agent_update aid st msg) = s\<lparr>agents := agent_update aid st msg (agents s)\<rparr>"
| "onmessage s (Job_complete generated_code) =
     s\<lparr>modernCode := generated_code, isProcessing := False, connected := False, wsClosed := True\<rparr>"
| "onmessage s (Job_error err) =
     s\<lparr>error := Some err, isProcessing := False, connected := False, wsClosed := True\<rparr>"
| "onmessage s (Other_message ty) = s"

text \<open>
  The socket dispatches its messages in order, and none once \<open>close()\<close> has been called.
\<close>

fun deliver :: "Page \<Rightarrow> WsMessage list \<Rightarrow> Page" where
  "deliver s [] = s"
| "deliver s (m # ms) = (if wsClosed s then s else deliver (onmessage s m) ms)"

fun is_final_event :: "WsMessage \<Rightarrow> bool" where
  "is_final_event (Job_complete c) = True"
| "is_final_event (Job_error e) = True"
| "is_final_event m = False"

fun apply_stage_events :: "Agent list \<Rightarrow> WsMessage list \<Rightarrow> Agent list" where
  "apply_stage_events as [] = as"
| "apply_stage_events as (Agent_update aid st msg # ms) =
     apply_stage_events (agent_update aid st msg as) ms"
| "apply_stage_events as (m # ms) = apply_stage_events as ms"

text \<open>
  The status and message of the last \<open>agent_update\<close> among the messages \<open>ms\<close> that
  names the agent \<open>aid\<close>, if there is one.
\<close>

fun last_update :: "string \<Rightarrow> WsMessage list \<Rightarrow> (AgentStatus \<times> string option) option" where
  "last_update aid [] = None"
| "last_update aid (m # ms) =
     (case last_update aid ms of
        Some u \<Rightarrow> Some u
      | None \<Rightarrow>
          (case m of
             Agent_update a st msg \<Rightarrow> if a = aid then Some (st, msg) else None
           | Job_complete c \<Rightarrow> None
           | Job_error e \<Rightarrow> None
           | Other_message ty \<Rightarrow> None))"

section \<open>The simulated pipeline\<close>

text \<open>
  \<open>prev.map((a, idx) => ...)\<close>: the callback of \<open>map\<close> also receives the index.
\<close>

definition mapi :: "('a \<Rightarrow> nat \<Rightarrow> 'b) \<Rightarrow> 'a list \<Rightarrow> 'b list" where
  "mapi f xs = map (\<lambda>(a, idx). f a idx) (zip xs [0..<length xs])"

text \<open>
  \<^verbatim>\<open>
  const delays = [1500, 1200, 2000, 1500, 1000];
  const messages = [ ... ];
  \<close>
  The arrow of the second message is written as its three UTF-8 bytes. Reading an array out
  of range gives \<open>undefined\<close>, which is \<open>None\<close> here.
\<close>

definition delays :: "nat list" where
  "delays = [1500, 1200, 2000, 1500, 1000]"

definition arrow :: string where
  "arrow = [CHR 0xE2, CHR 0x86, CHR 0x92]"

definition messages :: "string list" where
  "messages =
    [''Parsed 1 class, 3 methods, 2 memory allocations'',
     ''Mapped: new/delete '' @ arrow @ '' context manager, loop '' @ arrow @ '' NumPy'',
     ''Generated Python module with type hints'',
     ''All 5 tests passed (100% coverage)'',
     ''Created README.md and Architecture.md'']"

definition at_index :: "'a list \<Rightarrow> nat \<Rightarrow> 'a option" where
  "at_index xs i = (if i < length xs then Some (xs ! i) else None)"

text \<open>
  \<^verbatim>\<open>
  const resetAgents = useCallback(() => {
      setAgents((prev) =>
          prev.map((a) => ({ ...a, status: "pending" as AgentStatus, message: undefined })));
  }, []);
  \<close>
\<close>

definition resetAgents_sim :: "Page \<Rightarrow> Page" where
  "resetAgents_sim s = s\<lparr>agents := map (\<lambda>a. a\<lparr>status := Pending, message := None\<rparr>) (agents s)\<rparr>"

text \<open>
  The body of the \<open>for\<close> loop of \<open>simulateRefactor\<close>, from index \<open>i\<close> up to \<open>n\<close>
  (\<open>agents.length\<close>). Each pass commits two states, one before and one after the awaited
  delay \<open>delays[i]\<close>; the function returns the states in the order they are committed.
\<close>

definition set_running :: "nat \<Rightarrow> Page \<Rightarrow> Page" where
  "set_running i s =
     s\<lparr>agents := mapi (\<lambda>a idx. if idx = i then a\<lparr>status := Running\<rparr> else a) (agents s)\<rparr>"

definition set_completed :: "nat \<Rightarrow> Page \<Rightarrow> Page" where
  "set_completed i s =
     s\<lparr>agents := mapi (\<lambda>a idx. if idx = i
                                then a\<lparr>status := Completed, message := at_index messages i\<rparr>
                                else a) (agents s)\<rparr>"

function sim_loop :: "nat \<Rightarrow> nat \<Rightarrow> Page \<Rightarrow> Page list" where
  "sim_loop i n s =
     (if i < n
      then set_running i s # set_completed i (set_running i s)
             # sim_loop (Suc i) n (set_completed i (set_running i s))
      else [])"
  by pat_completeness auto
termination
  by (relation "measure (\<lambda>(i, n, s). n - i)") auto

declare sim_loop.simps [simp del]

text \<open>
  \<^verbatim>\<open>
  setIsProcessing(true); setModernCode(""); resetAgents();
  for (let i = 0; i < agents.length; i++) { ... }
  setModernCode(SAMPLE_PYTHON); setIsProcessing(false);
  \<close>
  The sample output is a parameter. The result is the sequence of committed states.
\<close>

definition simulateRefactor :: "string \<Rightarrow> Page \<Rightarrow> Page list" where
  "simulateRefactor sample_python s =
     (let s0 = resetAgents_sim (s\<lparr>isProcessing := True, modernCode := []\<rparr>);
          tr = sim_loop 0 (length (agents s)) s0
      in s0 # tr @ [(last (s0 # tr))\<lparr>modernCode := sample_python, isProcessing := False\<rparr>])"

text \<open>Stage \<open>i + 1\<close> has left \<open>pending\<close> only if stage \<open>i\<close> is completed.\<close>

definition sequential :: "Agent list \<Rightarrow> bool" where
  "sequential as =
     (\<forall>i. Suc i < length as \<longrightarrow> status (as ! Suc i) \<noteq> Pending \<longrightarrow> status (as ! i) = Completed)"


text \<open>
  The two shapes of the agent list during the loop: stages below \<open>k\<close> completed and the
  rest pending, or the same with stage \<open>k\<close> running.
\<close>

definition done_upto :: "nat \<Rightarrow> Agent list \<Rightarrow> bool" where
  "done_upto k as = (\<forall>j < length as. status (as ! j) = (if j < k then Completed else Pending))"

definition running_at :: "nat \<Rightarrow> Agent list \<Rightarrow> bool" where
  "running_at k as = (\<forall>j < length as. status (as ! j) =
      (if j < k then Completed else if j = k then Running else Pending))"

section \<open>Job submission\<close>

text \<open>
  \<^verbatim>\<open>
  const resetAgents = useCallback(() => {
      setAgents((prev) =>
          prev.map((a) => ({ ...a, status: "pending" as AgentStatus, message: undefined })));
      setError(null);
      setModernCode("");
  }, []);
  \<close>
\<close>

definition resetAgents :: "Page \<Rightarrow> Page" where
  "resetAgents s =
     s\<lparr>agents := map (\<lambda>a. a\<lparr>status := Pending, message := None\<rparr>) (agents s),
       error := None, modernCode := []\<rparr>"

text \<open>
  The body of the POST request to \<open>/api/refactor\<close>, as the ordered list of the members of
  the object given to \<open>JSON.stringify\<close>.
  \<^verbatim>\<open>
  body: JSON.stringify({
      source_code: legacyCode,
      language: language,
      file_name: `input.${language}`,
      use_mock: useMock,
  }),
  \<close>
\<close>

datatype Json = JString string | JBool bool

definition request_body :: "Page \<Rightarrow> (string \<times> Json) list" where
  "request_body s =
     [(''source_code'', JString (legacyCode s)),
      (''language'', JString (language_str (language s))),
      (''file_name'', JString (''input.'' @ language_str (language s))),
      (''use_mock'', JBool (useMock s))]"

text \<open>
  What the \<open>fetch\<close> gives back: an exception (of \<open>fetch\<close> itself or of
  \<open>response.json()\<close>) with the message shown to the user, a response that is not
  \<open>ok\<close>, or an \<open>ok\<close> response with the \<open>job_id\<close> member of its body (\<open>None\<close> when the
  body has none, which JavaScript prints as \<open>undefined\<close> in the address).
\<close>

datatype FetchResult = Fetch_failed string | Response_not_ok | Response_ok "string option"

fun handleRefactor :: "Page \<Rightarrow> FetchResult \<Rightarrow> Page" where
  "handleRefactor s (Fetch_failed msg) =
     (resetAgents (s\<lparr>isProcessing := True\<rparr>))\<lparr>error := Some msg, isProcessing := False\<rparr>"
| "handleRefactor s Response_not_ok =
     (resetAgents (s\<lparr>isProcessing := True\<rparr>))
       \<lparr>error := Some ''Failed to create refactoring job'', isProcessing := False\<rparr>"
| "handleRefactor s (Response_ok job_id) =
     (resetAgents (s\<lparr>isProcessing := True\<rparr>))
       \<lparr>wsUrl := Some (''ws://localhost:8000/api/ws/''
                        @ (case job_id of Some j \<Rightarrow> j | None \<Rightarrow> ''undefined'')),
        wsClosed := False\<rparr>"

section \<open>File upload\<close>

text \<open>
  \<open>String.prototype.split\<close> with a one-character separator: the pieces between the
  separators, at least one piece (the empty string splits into one empty piece).
\<close>

fun split :: "string \<Rightarrow> char \<Rightarrow> string list" where
  "split [] sep = [ [] ]"
| "split (c # cs) sep =
     (if c = sep then [] # split cs sep
      else (case split cs sep of
              [] \<Rightarrow> [ [c] ]
            | p # ps \<Rightarrow> (c # p) # ps))"

text \<open>\<open>toLowerCase\<close> on the letters \<open>A\<close> to \<open>Z\<close>; the other characters of a file name are kept.\<close>

definition lower_char :: "char \<Rightarrow> char" where
  "lower_char c =
     (if (65::nat) \<le> of_char c \<and> of_char c \<le> (90::nat)
      then char_of (of_char c + (32::nat)) else c)"

definition toLowerCase :: "string \<Rightarrow> string" where
  "toLowerCase str = map lower_char str"

text \<open>
  An uploaded file: its name, and the text the \<open>FileReader\<close> hands to \<open>onload\<close>
  (\<open>None\<close> when the read fails, and \<open>onload\<close> is never called).
  \<^verbatim>\<open>
  const handleFileUpload = useCallback((file: File) => {
      const extension = file.name.split('.').pop()?.toLowerCase();
      // Detect language from extension
      if (extension === 'cpp' || extension === 'cc' || extension === 'cxx'
          || extension === 'c' || extension === 'h' || extension === 'hpp') {
          setLanguage('cpp');
      } else if (extension === 'java') {
          setLanguage('java');
      }
      setFileName(file.name);
      const reader = new FileReader();
      reader.onload = (e) => { setLegacyCode(e.target?.result as string); };
      reader.readAsText(file);
  }, []);
  \<close>
  \<open>pop\<close> takes the last piece, which exists since \<open>split\<close> never returns an empty array.
\<close>

record File =
  name :: string
  text_content :: "string option"

definition extension_of :: "string \<Rightarrow> string" where
  "extension_of file_name = toLowerCase (last (split file_name CHR ''.''))"

definition handleFileUpload :: "File \<Rightarrow> Page \<Rightarrow> Page" where
  "handleFileUpload file s =
     (let extension = extension_of (name file);
          s1 = (if extension = ''cpp'' \<or> extension = ''cc'' \<or> extension = ''cxx''
                   \<or> extension = ''c'' \<or> extension = ''h'' \<or> extension = ''hpp''
                then s\<lparr>language := Cpp\<rparr>
                else if extension = ''java'' then s\<lparr>language := Java\<rparr>
                else s);
          s2 = s1\<lparr>fileName := Some (name file)\<rparr>
      in case text_content file of
           Some content \<Rightarrow> s2\<lparr>legacyCode := content\<rparr>
         | None \<Rightarrow> s2)"

section \<open>The pipeline core: state, Router and Orchestrator\<close>

text \<open>
  Modelled from the spec: the Python core of the pipeline (\<open>src/core/state.py\<close> and
  \<open>src/core/graph.py\<close>, with \<open>should_retry_or_proceed\<close>) is not among the sources; the
  README only gives the signature
  \<^verbatim>\<open>def should_retry_or_proceed(state) -> Literal["engineer", "scribe", "error"]\<close>.
  The definitions of this section follow sections 3, 4.2, 4.3, 4.4 and 4.5 of the
  specification.
\<close>

datatype Stage = Extractor | Mapper | Generator | Validator | Documenter

datatype PipelineStatus = Job_pending | Job_running | Job_completed | Job_failed

text \<open>
  Modelled from the spec: the validation result of section 3, a pass flag, a pass rate
  between 0 and 1 and the list of failure descriptions.
\<close>

record ValidationResult =
  pass :: bool
  pass_rate :: rat
  failures :: "string list"

text \<open>
  Modelled from the spec: the Pipeline State of section 3. Two fields are added to follow a
  run: \<open>last_stage\<close>, the stage that completed last (the position of the job in the
  graph, which the Router needs for its fixed order), and \<open>history\<close>, the stages in the
  order the Orchestrator invoked them.
\<close>

record PipelineState =
  job_id :: string
  source_text :: string
  source_language :: Language
  source_file_name :: string
  logic_schema :: "string option"
  design_mapping :: "string option"
  generated_artifact :: "string option"
  validation_result :: "ValidationResult option"
  documentation :: "string option"
  retry_count :: nat
  errors :: "string list"
  pstatus :: PipelineStatus
  last_stage :: "Stage option"
  history :: "Stage list"

text \<open>Modelled from the spec: the default of the configured maximum of retries (section 3).\<close>

definition default_max_retries :: nat where
  "default_max_retries = 3"

text \<open>
  Modelled from the spec: section 4.2, a state is created once per job in status pending,
  with \<open>retry_count\<close> 0, and becomes running when the Orchestrator starts.
\<close>

definition init_state :: "string \<Rightarrow> string \<Rightarrow> Language \<Rightarrow> string \<Rightarrow> PipelineState" where
  "init_state jid src lang fname =
     \<lparr>job_id = jid, source_text = src, source_language = lang, source_file_name = fname,
      logic_schema = None, design_mapping = None, generated_artifact = None,
      validation_result = None, documentation = None, retry_count = 0, errors = [],
      pstatus = Job_pending, last_stage = None, history = []\<rparr>"

definition start :: "PipelineState \<Rightarrow> PipelineState" where
  "start s = s\<lparr>pstatus := Job_running\<rparr>"

definition terminal :: "PipelineState \<Rightarrow> bool" where
  "terminal s = (pstatus s = Job_completed \<or> pstatus s = Job_failed)"

text \<open>
  Modelled from the spec: the decision table of section 4.4, evaluated after Validator
  completes, with the three outcomes the README names. A missing validation result (which
  no run produces after Validator) is routed to the error outcome.
\<close>

datatype Edge = Engineer | Scribe | Error

definition should_retry_or_proceed :: "nat \<Rightarrow> PipelineState \<Rightarrow> Edge" where
  "should_retry_or_proceed max_retries s =
     (case validation_result s of
        None \<Rightarrow> Error
      | Some v \<Rightarrow>
          if pass v then Scribe
          else if retry_count s < max_retries then Engineer
          else Error)"

text \<open>
  Modelled from the spec: the Router of section 4.4, a pure function of the state. Before
  Validator has run the order is fixed; after Documenter the job is completed; a terminal
  state stays as it is.
\<close>

datatype Decision = Next Stage | Terminal PipelineStatus

definition router :: "nat \<Rightarrow> PipelineState \<Rightarrow> Decision" where
  "router max_retries s =
     (if terminal s then Terminal (pstatus s)
      else case last_stage s of
             None \<Rightarrow> Next Extractor
           | Some Extractor \<Rightarrow> Next Mapper
           | Some Mapper \<Rightarrow> Next Generator
           | Some Generator \<Rightarrow> Next Validator
           | Some Validator \<Rightarrow>
               (case should_retry_or_proceed max_retries s of
                  Scribe \<Rightarrow> Next Documenter
                | Engineer \<Rightarrow> Next Generator
                | Error \<Rightarrow> Terminal Job_failed)
           | Some Documenter \<Rightarrow> Terminal Job_completed)"

text \<open>
  Modelled from the spec: what the stages compute is outside the core, so a run is taken
  against a backend that tells, for the \<open>k\<close>-th stage invocation of the job, whether it
  raises an infrastructure failure (with its description), the text it produces, and the
  validation result it produces if it is a Validator.
\<close>

record Backend =
  raises :: "nat \<Rightarrow> string option"
  produces :: "nat \<Rightarrow> string"
  validates :: "nat \<Rightarrow> ValidationResult"

text \<open>
  Modelled from the spec: sections 4.2, 4.3 and 4.5. A stage invocation either commits its
  whole result or raises a failure, which the Orchestrator records in \<open>errors\<close> with status
  failed, committing nothing else.
\<close>

fun commit :: "Stage \<Rightarrow> Backend \<Rightarrow> nat \<Rightarrow> PipelineState \<Rightarrow> PipelineState" where
  "commit Extractor b k s = s\<lparr>logic_schema := Some (produces b k)\<rparr>"
| "commit Mapper b k s = s\<lparr>design_mapping := Some (produces b k)\<rparr>"
| "commit Generator b k s = s\<lparr>generated_artifact := Some (produces b k)\<rparr>"
| "commit Validator b k s = s\<lparr>validation_result := Some (validates b k)\<rparr>"
| "commit Documenter b k s = s\<lparr>documentation := Some (produces b k)\<rparr>"

definition run_stage :: "Backend \<Rightarrow> Stage \<Rightarrow> PipelineState \<Rightarrow> PipelineState" where
  "run_stage b st s =
     (let k = length (history s);
          s' = s\<lparr>history := history s @ [st]\<rparr>
      in case raises b k of
           Some e \<Rightarrow> s'\<lparr>errors := errors s' @ [e], pstatus := Job_failed\<rparr>
         | None \<Rightarrow> (commit st b k s')\<lparr>last_stage := Some st\<rparr>)"

text \<open>
  Modelled from the spec: one pass of the loop of section 4.5,
  \<^verbatim>\<open>stage <- Router.next(state); if stage is terminal: break; state <- stage.run(state)\<close>.
  On the backward edge from Validator to Generator \<open>retry_count\<close> is incremented first.
\<close>

definition orchestrator_step :: "nat \<Rightarrow> Backend \<Rightarrow> PipelineState \<Rightarrow> PipelineState" where
  "orchestrator_step max_retries b s =
     (case router max_retries s of
        Terminal st \<Rightarrow> s\<lparr>pstatus := st\<rparr>
      | Next st \<Rightarrow>
          if st = Generator \<and> last_stage s = Some Validator
          then run_stage b Generator (s\<lparr>retry_count := retry_count s + 1\<rparr>)
          else run_stage b st s)"

text \<open>Modelled from the spec: the Orchestrator of section 4.5, run for \<open>n\<close> passes of its loop.\<close>

fun orchestrate :: "nat \<Rightarrow> Backend \<Rightarrow> nat \<Rightarrow> PipelineState \<Rightarrow> PipelineState" where
  "orchestrate max_retries b 0 s = s"
| "orchestrate max_retries b (Suc n) s =
     orchestrate max_retries b n (orchestrator_step max_retries b s)"

definition run_job :: "nat \<Rightarrow> Backend \<Rightarrow> nat \<Rightarrow> PipelineState" where
  "run_job max_retries b n =
     orchestrate max_retries b n (start (init_state ''job'' ''source'' Cpp ''input.cpp''))"

text \<open>The number of times a run invoked Generator.\<close>

definition generator_runs :: "PipelineState \<Rightarrow> nat" where
  "generator_runs s = count_list (history s) Generator"

text \<open>
  Modelled from the spec: two backends without infrastructure failures, one whose
  validations all fail and one whose validations all pass.
\<close>

definition failing_validation :: ValidationResult where
  "failing_validation = \<lparr>pass = False, pass_rate = 0, failures = [''test_main failed'']\<rparr>"

definition passing_validation :: ValidationResult where
  "passing_validation = \<lparr>pass = True, pass_rate = 1, failures = []\<rparr>"

definition always_failing :: Backend where
  "always_failing =
     \<lparr>raises = (\<lambda>k. None), produces = (\<lambda>k. ''out''), validates = (\<lambda>k. failing_validation)\<rparr>"

definition always_passing :: Backend where
  "always_passing =
     \<lparr>raises = (\<lambda>k. None), produces = (\<lambda>k. ''out''), validates = (\<lambda>k. passing_validation)\<rparr>"

text \<open>The invariant of a run that relates the runs of Generator to \<open>retry_count\<close>.\<close>

definition run_inv :: "nat \<Rightarrow> PipelineState \<Rightarrow> bool" where
  "run_inv max_retries s =
     (retry_count s \<le> max_retries
      \<and> generator_runs s \<le> retry_count s + 1
      \<and> (\<not> terminal s \<and> last_stage s \<in> {None, Some Extractor, Some Mapper}
            \<longrightarrow> generator_runs s = 0))"

text \<open>
  The number of passes of the Orchestrator a state is at most away from a terminal state.
\<close>

definition remaining :: "nat \<Rightarrow> PipelineState \<Rightarrow> nat" where
  "remaining max_retries s =
     (if terminal s then 0
      else case last_stage s of
             None \<Rightarrow> 2 * (max_retries - retry_count s) + 6
           | Some Extractor \<Rightarrow> 2 * (max_retries - retry_count s) + 5
           | Some Mapper \<Rightarrow> 2 * (max_retries - retry_count s) + 4
           | Some Generator \<Rightarrow> 2 * (max_retries - retry_count s) + 3
           | Some Validator \<Rightarrow> 2 * (max_retries - retry_count s) + 2
           | Some Documenter \<Rightarrow> 1)"

section \<open>The Context Manager\<close>

text \<open>
  Modelled from the spec: the Context Manager (\<open>src/memory/manager.py\<close>) is not among the
  sources; the README gives the three size classes and the fields of \<open>MemoryConfig\<close>
  (\<open>max_context_tokens=8192, chunk_size_tokens=512, chunk_overlap_tokens=64,
  top_k_retrieval=5\<close>). The definitions of this section follow section 4.1 of the
  specification; the two thresholds are configuration, with the defaults 4,000 and 16,000.
\<close>

datatype Strategy = Direct | Windowed | Retrieval

record MemoryConfig =
  small_threshold :: nat
  large_threshold :: nat
  max_context_tokens :: nat
  chunk_size_tokens :: nat
  chunk_overlap_tokens :: nat
  top_k_retrieval :: nat

definition default_config :: MemoryConfig where
  "default_config =
     \<lparr>small_threshold = 4000, large_threshold = 16000, max_context_tokens = 8192,
      chunk_size_tokens = 512, chunk_overlap_tokens = 64, top_k_retrieval = 5\<rparr>"

text \<open>
  Modelled from the spec: the selection of section 4.1 from the token estimate, \<open>None\<close>
  when the estimate cannot be computed. Below the small threshold the strategy is Direct,
  from the small threshold up to the large one it is Windowed, above the large one it is
  Retrieval; without an estimate it is Windowed, with a warning. The result is the strategy
  and the warnings recorded.
\<close>

definition select_strategy :: "MemoryConfig \<Rightarrow> nat option \<Rightarrow> Strategy \<times> string list" where
  "select_strategy cfg estimate =
     (case estimate of
        None \<Rightarrow> (Windowed, [''token estimate unavailable, falling back to windowed''])
      | Some n \<Rightarrow>
          (if n < small_threshold cfg then Direct
           else if n \<le> large_threshold cfg then Windowed
           else Retrieval, []))"

text \<open>
  Modelled from the spec: the token-estimation function is injected (section 4.1); it is
  partial, as an estimate may not be computable.
\<close>

definition choose_strategy ::
  "MemoryConfig \<Rightarrow> (string \<Rightarrow> nat option) \<Rightarrow> string \<Rightarrow> Strategy \<times> string list" where
  "choose_strategy cfg estimate_tokens source = select_strategy cfg (estimate_tokens source)"

text \<open>
  Modelled from the spec: a chunk of the Windowed strategy, with the offsets of its span in
  the original (from \<open>chunk_start\<close>, up to and without \<open>chunk_end\<close>) and its tokens. A
  text is the list of its tokens.
\<close>

record 'a Chunk =
  chunk_start :: nat
  chunk_end :: nat
  chunk_tokens :: "'a list"

text \<open>
  Modelled from the spec: the sliding window of section 4.1. A chunk takes \<open>sz\<close> tokens
  from its start \<open>pos\<close>; the next chunk starts \<open>ov\<close> tokens before the end of this one;
  the chunk that reaches the end of the text is the last one.
\<close>

function chunks_from :: "nat \<Rightarrow> nat \<Rightarrow> nat \<Rightarrow> 'a list \<Rightarrow> 'a Chunk list" where
  "chunks_from sz ov pos xs =
     (if pos + sz < length xs \<and> ov < sz
      then \<lparr>chunk_start = pos, chunk_end = pos + sz,
             chunk_tokens = take sz (drop pos xs)\<rparr>
             # chunks_from sz ov (pos + sz - ov) xs
      else [\<lparr>chunk_start = pos, chunk_end = length xs, chunk_tokens = drop pos xs\<rparr>])"
  by pat_completeness auto
termination
  by (relation "measure (\<lambda>(sz, ov, pos, xs). length xs - pos)") auto

declare chunks_from.simps [simp del]

text \<open>
  Modelled from the spec: an overlap that is not smaller than the chunk size is a
  configuration failure (section 7), rejected with no chunks produced.
\<close>

definition windowed :: "MemoryConfig \<Rightarrow> 'a list \<Rightarrow> 'a Chunk list option" where
  "windowed cfg xs =
     (if chunk_size_tokens cfg \<le> chunk_overlap_tokens cfg then None
      else Some (chunks_from (chunk_size_tokens cfg) (chunk_overlap_tokens cfg) 0 xs))"

text \<open>
  Modelled from the spec: the unique span of a chunk is the chunk without the overlap it
  shares with the chunk before it; the first chunk is unique as a whole.
\<close>

fun unique_spans :: "nat \<Rightarrow> 'a Chunk list \<Rightarrow> 'a list list" where
  "unique_spans overlap [] = []"
| "unique_spans overlap (c # cs) =
     chunk_tokens c # map (\<lambda>d. drop overlap (chunk_tokens d)) cs"

definition reassemble :: "nat \<Rightarrow> 'a Chunk list \<Rightarrow> 'a list" where
  "reassemble overlap cs = concat (unique_spans overlap cs)"

section \<open>Frame of a stage update\<close>

lemma agent_update_length: "length (agent_update aid st msg prev) = length prev"
  by (simp add: agent_update_def)

lemma agent_update_ids: "map agent_id (agent_update aid st msg prev) = map agent_id prev"
  by (induction prev) (simp_all add: agent_update_def)

text \<open>
  Claim C9. Processing an \<open>agent_update\<close> event replaces the status and the message of the
  agents whose id is the event's \<open>agent_id\<close> and of no other agent: the list keeps its
  length and the order of its ids, an agent with another id is unchanged, and an agent with
  that id keeps its id, name and emoji.
\<close>

theorem C9_agent_update_frame:
  "length (agent_update aid st msg prev) = length prev
   \<and> map agent_id (agent_update aid st msg prev) = map agent_id prev
   \<and> (\<forall>i < length prev.
        (agent_id (prev ! i) \<noteq> aid \<longrightarrow> agent_update aid st msg prev ! i = prev ! i)
      \<and> (agent_id (prev ! i) = aid \<longrightarrow>
           agent_update aid st msg prev ! i = (prev ! i)\<lparr>status := st, message := msg\<rparr>))"
  by (simp add: agent_update_length agent_update_ids) (simp add: agent_update_def)

theorem C9_agent_update_frame_witness:
  "agent_update ''engineer'' Running (Some ''working'') initial_agents ! 2
     = (initial_agents ! 2)\<lparr>status := Running, message := Some ''working''\<rparr>
   \<and> agent_update ''engineer'' Running (Some ''working'') initial_agents ! 3
     = initial_agents ! 3
   \<and> (2::nat) < length initial_agents \<and> (3::nat) < length initial_agents"
proof -
  have len: "length initial_agents = 5"
    by (simp add: initial_agents_def)
  have a2: "agent_id (initial_agents ! 2) = ''engineer''"
    by (simp add: initial_agents_def)
  have a3: "agent_id (initial_agents ! 3) \<noteq> ''engineer''"
    by (simp add: initial_agents_def)
  from C9_agent_update_frame [of "''engineer''" Running "Some ''working''" initial_agents]
  show ?thesis using len a2 a3 by simp
qed


section \<open>Properties of the simulated pipeline\<close>

lemma mapi_length [simp]: "length (mapi f xs) = length xs"
  by (simp add: mapi_def)

lemma mapi_nth [simp]: "i < length xs \<Longrightarrow> mapi f xs ! i = f (xs ! i) i"
  by (simp add: mapi_def)

lemma done_upto_sequential: "done_upto k as \<Longrightarrow> sequential as"
  by (auto simp: done_upto_def sequential_def split: if_splits)

lemma running_at_sequential: "running_at k as \<Longrightarrow> sequential as"
proof (unfold sequential_def, intro allI impI)
  fix i
  assume r: "running_at k as" and i: "Suc i < length as" and np: "status (as ! Suc i) \<noteq> Pending"
  from r i have "status (as ! Suc i) =
      (if Suc i < k then Completed else if Suc i = k then Running else Pending)"
    by (simp add: running_at_def)
  with np have "i < k" by (auto split: if_splits)
  moreover from i have "i < length as" by simp
  ultimately show "status (as ! i) = Completed"
    using r by (simp add: running_at_def)
qed

lemma set_running_step: "done_upto i (agents s) \<Longrightarrow> running_at i (agents (set_running i s))"
  by (auto simp: done_upto_def running_at_def set_running_def)

lemma set_completed_step:
  "running_at i (agents s) \<Longrightarrow> done_upto (Suc i) (agents (set_completed i s))"
  by (auto simp: done_upto_def running_at_def set_completed_def less_Suc_eq)

lemma set_running_frame:
  "modernCode (set_running i s) = modernCode s"
  "map agent_id (agents (set_running i s)) = map agent_id (agents s)"
  "length (agents (set_running i s)) = length (agents s)"
  by (auto simp: set_running_def intro!: nth_equalityI)

lemma set_completed_frame:
  "modernCode (set_completed i s) = modernCode s"
  "map agent_id (agents (set_completed i s)) = map agent_id (agents s)"
  "length (agents (set_completed i s)) = length (agents s)"
  by (auto simp: set_completed_def intro!: nth_equalityI)

lemma sim_loop_states:
  "done_upto i (agents s) \<Longrightarrow> t \<in> set (sim_loop i n s) \<Longrightarrow>
     sequential (agents t) \<and> modernCode t = modernCode s
     \<and> map agent_id (agents t) = map agent_id (agents s)"
proof (induction i n s rule: sim_loop.induct)
  case (1 i n s)
  show ?case
  proof (cases "i < n")
    case False
    with "1.prems" show ?thesis by (simp add: sim_loop.simps)
  next
    case True
    let ?s1 = "set_running i s"
    let ?s2 = "set_completed i ?s1"
    have r: "running_at i (agents ?s1)" using "1.prems"(1) by (rule set_running_step)
    have d: "done_upto (Suc i) (agents ?s2)" using r by (rule set_completed_step)
    from "1.prems"(2) True have "t = ?s1 \<or> t = ?s2 \<or> t \<in> set (sim_loop (Suc i) n ?s2)"
      by (subst (asm) sim_loop.simps) auto
    then show ?thesis
    proof (elim disjE)
      assume "t = ?s1"
      then show ?thesis using r by (simp add: running_at_sequential set_running_frame)
    next
      assume "t = ?s2"
      then show ?thesis using d
        by (simp add: done_upto_sequential set_running_frame set_completed_frame)
    next
      assume "t \<in> set (sim_loop (Suc i) n ?s2)"
      from "1.IH" [OF True d this] show ?thesis
        by (simp add: set_running_frame set_completed_frame)
    qed
  qed
qed

lemma sim_loop_last:
  "done_upto i (agents s) \<Longrightarrow> i \<le> n \<Longrightarrow>
     done_upto n (agents (last (s # sim_loop i n s)))
     \<and> modernCode (last (s # sim_loop i n s)) = modernCode s
     \<and> map agent_id (agents (last (s # sim_loop i n s))) = map agent_id (agents s)"
proof (induction i n s rule: sim_loop.induct)
  case (1 i n s)
  show ?case
  proof (cases "i < n")
    case False
    with "1.prems" show ?thesis by (simp add: sim_loop.simps)
  next
    case True
    let ?s1 = "set_running i s"
    let ?s2 = "set_completed i ?s1"
    have r: "running_at i (agents ?s1)" using "1.prems"(1) by (rule set_running_step)
    have d: "done_upto (Suc i) (agents ?s2)" using r by (rule set_completed_step)
    have le: "Suc i \<le> n" using True by simp
    have "last (s # sim_loop i n s) = last (?s2 # sim_loop (Suc i) n ?s2)"
      using True by (subst sim_loop.simps) simp
    with "1.IH" [OF True d le] show ?thesis
      by (simp add: set_running_frame set_completed_frame)
  qed
qed

lemma reset_done_upto: "done_upto 0 (agents (resetAgents_sim s))"
  by (simp add: done_upto_def resetAgents_sim_def)

lemma reset_frame:
  "map agent_id (agents (resetAgents_sim s)) = map agent_id (agents s)"
  "modernCode (resetAgents_sim s) = modernCode s"
  by (simp_all add: resetAgents_sim_def comp_def)

lemma done_upto_all: "done_upto (length as) as \<Longrightarrow> a \<in> set as \<Longrightarrow> status a = Completed"
  by (auto simp: done_upto_def in_set_conv_nth)

lemma simulateRefactor_shape:
  "\<exists>s0 tr fin. simulateRefactor sample s = s0 # tr @ [fin]"
  by (simp add: simulateRefactor_def Let_def)

text \<open>
  Claim C8. In every state that one run of the pipeline commits, the five stages keep the
  order Archaeologist, Architect, Engineer, Validator, Scribe, and a stage has left
  \<open>pending\<close> (is running, completed or failed) only if the stage before it is completed;
  the generated code is empty in every state but the last, and in the last state it is the
  artifact and every stage is completed.
\<close>

theorem C8_stages_sequential:
  "(\<forall>t \<in> set (simulateRefactor sample s).
      sequential (agents t) \<and> map agent_id (agents t) = map agent_id (agents s))
   \<and> (\<forall>t \<in> set (butlast (simulateRefactor sample s)). modernCode t = [])
   \<and> modernCode (last (simulateRefactor sample s)) = sample
   \<and> (\<forall>a \<in> set (agents (last (simulateRefactor sample s))). status a = Completed)"
proof -
  define s0 where "s0 = resetAgents_sim (s\<lparr>isProcessing := True, modernCode := []\<rparr>)"
  define n where "n = length (agents s)"
  define tr where "tr = sim_loop 0 n s0"
  define fin where "fin = (last (s0 # tr))\<lparr>modernCode := sample, isProcessing := False\<rparr>"
  have run: "simulateRefactor sample s = s0 # tr @ [fin]"
    by (simp add: simulateRefactor_def Let_def s0_def n_def tr_def fin_def)
  have d0: "done_upto 0 (agents s0)"
    unfolding s0_def by (rule reset_done_upto)
  have ids0: "map agent_id (agents s0) = map agent_id (agents s)"
    by (simp add: s0_def reset_frame)
  have code0: "modernCode s0 = []"
    by (simp add: s0_def reset_frame)
  have len0: "length (agents s0) = n"
    by (simp add: s0_def n_def resetAgents_sim_def)
  have mid: "sequential (agents t) \<and> modernCode t = [] \<and> map agent_id (agents t) = map agent_id (agents s)"
    if "t \<in> set (s0 # tr)" for t
  proof (cases "t = s0")
    case True
    then show ?thesis using d0 ids0 code0 by (simp add: done_upto_sequential)
  next
    case False
    with that have "t \<in> set (sim_loop 0 n s0)" by (simp add: tr_def)
    from sim_loop_states [OF d0 this] show ?thesis using ids0 code0 by simp
  qed
  have lst: "done_upto n (agents (last (s0 # tr)))
      \<and> map agent_id (agents (last (s0 # tr))) = map agent_id (agents s)"
    using sim_loop_last [OF d0, of n] ids0 by (simp add: tr_def)
  have lenl: "length (agents (last (s0 # tr))) = n"
  proof -
    have "length (map agent_id (agents (last (s0 # tr)))) = length (map agent_id (agents s))"
      using lst by simp
    then show ?thesis by (simp add: n_def)
  qed
  have fin_agents: "agents fin = agents (last (s0 # tr))"
    by (simp add: fin_def)
  have fin_done: "done_upto (length (agents fin)) (agents fin)"
    using lst lenl fin_agents by simp
  have p1: "\<forall>t \<in> set (simulateRefactor sample s).
      sequential (agents t) \<and> map agent_id (agents t) = map agent_id (agents s)"
  proof
    fix t assume "t \<in> set (simulateRefactor sample s)"
    then have "t \<in> set (s0 # tr) \<or> t = fin" by (auto simp: run)
    then show "sequential (agents t) \<and> map agent_id (agents t) = map agent_id (agents s)"
    proof
      assume "t \<in> set (s0 # tr)"
      from mid [OF this] show ?thesis by simp
    next
      assume "t = fin"
      then show ?thesis using fin_done lst fin_agents by (simp add: done_upto_sequential)
    qed
  qed
  have bl: "butlast (simulateRefactor sample s) = s0 # tr"
    by (simp add: run butlast_append)
  have p2: "\<forall>t \<in> set (butlast (simulateRefactor sample s)). modernCode t = []"
    unfolding bl using mid by blast
  have la: "last (simulateRefactor sample s) = fin"
    by (simp add: run)
  have p3: "modernCode (last (simulateRefactor sample s)) = sample"
    by (simp add: la fin_def)
  have p4: "\<forall>a \<in> set (agents (last (simulateRefactor sample s))). status a = Completed"
    unfolding la using fin_done by (blast intro: done_upto_all)
  from p1 p2 p3 p4 show ?thesis by blast
qed

theorem C8_stages_sequential_witness:
  "map agent_id (agents (last (simulateRefactor ''py'' (initial_page ''cpp''))))
       = [''archaeologist'', ''architect'', ''engineer'', ''validator'', ''scribe'']
   \<and> status (agents (last (simulateRefactor ''py'' (initial_page ''cpp''))) ! 4) = Completed
   \<and> modernCode (last (simulateRefactor ''py'' (initial_page ''cpp''))) = ''py''
   \<and> sequential (agents (hd (simulateRefactor ''py'' (initial_page ''cpp''))))
   \<and> modernCode (hd (simulateRefactor ''py'' (initial_page ''cpp''))) = []"
proof -
  let ?tr = "simulateRefactor ''py'' (initial_page ''cpp'')"
  obtain s0 tr fin where sh: "?tr = s0 # tr @ [fin]"
    using simulateRefactor_shape by blast
  have la: "last ?tr \<in> set ?tr" and hb: "hd ?tr \<in> set (butlast ?tr)" and hm: "hd ?tr \<in> set ?tr"
    by (simp_all add: sh butlast_append)
  have ids: "map agent_id (agents (initial_page ''cpp'')) =
      [''archaeologist'', ''architect'', ''engineer'', ''validator'', ''scribe'']"
    by (simp add: initial_page_def initial_agents_def)
  note main = C8_stages_sequential [of "''py''" "initial_page ''cpp''"]
  from main la have "map agent_id (agents (last ?tr)) = map agent_id (agents (initial_page ''cpp''))"
    by blast
  then have lids: "map agent_id (agents (last ?tr)) =
      [''archaeologist'', ''architect'', ''engineer'', ''validator'', ''scribe'']"
    by (simp only: ids)
  have "length (agents (last ?tr)) = 5"
    using arg_cong [OF lids, of length] by simp
  then have mem: "agents (last ?tr) ! 4 \<in> set (agents (last ?tr))"
    by simp
  from main mem have c4: "status (agents (last ?tr) ! 4) = Completed"
    by blast
  from main hb have h0: "modernCode (hd ?tr) = []" by blast
  from main hm have hs: "sequential (agents (hd ?tr))" by blast
  from main have lc: "modernCode (last ?tr) = ''py''" by blast
  from lids c4 lc hs h0 show ?thesis by blast
qed

section \<open>The consumer of the progress stream\<close>

lemma deliver_closed: "wsClosed s \<Longrightarrow> deliver s ms = s"
  by (cases ms) simp_all

lemma deliver_final:
  "\<not> wsClosed s \<Longrightarrow> is_final_event fin \<Longrightarrow> deliver s (fin # rest) = onmessage s fin"
  by (cases fin) (simp_all add: deliver_closed)

lemma onmessage_not_final:
  "\<not> is_final_event m \<Longrightarrow>
     onmessage s m = s\<lparr>agents := apply_stage_events (agents s) [m]\<rparr>"
  by (cases m) simp_all

lemma apply_stage_events_Cons:
  "apply_stage_events as (m # ms) = apply_stage_events (apply_stage_events as [m]) ms"
  by (cases m) simp_all

lemma deliver_not_final:
  "\<not> wsClosed s \<Longrightarrow> \<forall>m \<in> set pre. \<not> is_final_event m \<Longrightarrow>
     deliver s (pre @ rest) = deliver (s\<lparr>agents := apply_stage_events (agents s) pre\<rparr>) rest"
proof (induction pre arbitrary: s)
  case Nil
  then show ?case by simp
next
  case (Cons m pre)
  let ?s' = "s\<lparr>agents := apply_stage_events (agents s) [m]\<rparr>"
  have nf: "\<not> is_final_event m" using Cons.prems(2) by simp
  have open': "\<not> wsClosed ?s'" using Cons.prems(1) by simp
  have rest_ok: "\<forall>m \<in> set pre. \<not> is_final_event m" using Cons.prems(2) by simp
  have "deliver s ((m # pre) @ rest) = deliver ?s' (pre @ rest)"
    using Cons.prems(1) by (simp add: onmessage_not_final [OF nf])
  also have "\<dots> = deliver (?s'\<lparr>agents := apply_stage_events (agents ?s') pre\<rparr>) rest"
    by (rule Cons.IH [OF open' rest_ok])
  also have "\<dots> = deliver (s\<lparr>agents := apply_stage_events (agents s) (m # pre)\<rparr>) rest"
    by (simp add: apply_stage_events_Cons [of "agents s" m pre])
  finally show ?case .
qed

text \<open>
  What a sequence of stage events leaves in the agent list: each agent carries the status
  and message of the last event that names it, and is unchanged if none does.
\<close>

lemma apply_stage_events_last_update:
  "apply_stage_events as ms =
     map (\<lambda>a. case last_update (agent_id a) ms of
                 None \<Rightarrow> a
               | Some (st, msg) \<Rightarrow> a\<lparr>status := st, message := msg\<rparr>) as"
proof (induction ms arbitrary: as)
  case Nil
  show ?case by (simp add: map_idI)
next
  case (Cons m ms)
  show ?case
  proof (cases m)
    case (Agent_update aid st msg)
    have "apply_stage_events as (m # ms) = apply_stage_events (agent_update aid st msg as) ms"
      by (simp add: Agent_update)
    also have "\<dots> = map (\<lambda>a. case last_update (agent_id a) ms of
                 None \<Rightarrow> a
               | Some (st, msg) \<Rightarrow> a\<lparr>status := st, message := msg\<rparr>)
             (agent_update aid st msg as)"
      by (rule Cons.IH)
    also have "\<dots> = map (\<lambda>a. case last_update (agent_id a) (m # ms) of
                 None \<Rightarrow> a
               | Some (st, msg) \<Rightarrow> a\<lparr>status := st, message := msg\<rparr>) as"
      by (auto simp: agent_update_def Agent_update split: option.splits)
    finally show ?thesis .
  next
    case (Job_complete c)
    then show ?thesis using Cons.IH [of as] by (simp split: option.splits)
  next
    case (Job_error e)
    then show ?thesis using Cons.IH [of as] by (simp split: option.splits)
  next
    case (Other_message ty)
    then show ?thesis using Cons.IH [of as] by (simp split: option.splits)
  qed
qed

lemma dropWhile_final_head:
  "dropWhile (\<lambda>m. \<not> is_final_event m) ms = fin # rest \<Longrightarrow> is_final_event fin"
  using hd_dropWhile [of "\<lambda>m. \<not> is_final_event m" ms] by simp

text \<open>
  Claim C7, as stated, fails on the consumer: it does not handle precisely the events whose
  status is one of pending, running, completed and failed. An \<open>agent_update\<close> carrying the
  status \<open>paused\<close> is handled like any other, and the agent it names then carries a status
  outside the four.
\<close>

theorem C7_status_unchecked_counterexample:
  "\<not> listed_status (Other_status ''paused'')
   \<and> status (agents (onmessage (initial_page ''int main() {}'')
                (Agent_update ''engineer'' (Other_status ''paused'') None)) ! 2)
       = Other_status ''paused''
   \<and> status (agents (initial_page ''int main() {}'') ! 2) = Pending"
  by (simp add: initial_page_def initial_agents_def agent_update_def)

text \<open>
  Claim C7, amended. Whatever sequence of messages is delivered in order on a job's open
  socket, the consumer handles the three types \<open>agent_update\<close>, \<open>job_complete\<close> and
  \<open>job_error\<close> and no other. Up to the first final event (\<open>job_complete\<close> or \<open>job_error\<close>)
  every agent ends with the status and the message of the last \<open>agent_update\<close> that names
  its id, whatever status value that event carries, and an agent no event names is
  unchanged; the list keeps its length. If no final event arrives, nothing else in the
  state changes and the socket stays open. At the first final event the generated code is
  stored (\<open>job_complete\<close>) or the error is stored (\<open>job_error\<close>), processing ends and the
  socket is closed; nothing delivered after it has any effect. That the sink sends a
  status among the four and exactly one final event is the producer's part, which is not
  among the sources.
\<close>

theorem C7_consumer_stream:
  assumes "\<not> wsClosed s"
  shows "length (agents (deliver s ms)) = length (agents s)
       \<and> (\<forall>i < length (agents s).
             agents (deliver s ms) ! i =
               (case last_update (agent_id (agents s ! i))
                       (takeWhile (\<lambda>m. \<not> is_final_event m) ms) of
                  None \<Rightarrow> agents s ! i
                | Some (st, msg) \<Rightarrow> (agents s ! i)\<lparr>status := st, message := msg\<rparr>))
       \<and> (dropWhile (\<lambda>m. \<not> is_final_event m) ms = [] \<longrightarrow>
             deliver s ms = s\<lparr>agents := agents (deliver s ms)\<rparr>)
       \<and> (\<forall>code rest. dropWhile (\<lambda>m. \<not> is_final_event m) ms = Job_complete code # rest \<longrightarrow>
             deliver s ms =
               s\<lparr>agents := agents (deliver s ms), modernCode := code,
                  isProcessing := False, connected := False, wsClosed := True\<rparr>)
       \<and> (\<forall>err rest. dropWhile (\<lambda>m. \<not> is_final_event m) ms = Job_error err # rest \<longrightarrow>
             deliver s ms =
               s\<lparr>agents := agents (deliver s ms), error := Some err,
                  isProcessing := False, connected := False, wsClosed := True\<rparr>)"
proof -
  let ?pre = "takeWhile (\<lambda>m. \<not> is_final_event m) ms"
  let ?post = "dropWhile (\<lambda>m. \<not> is_final_event m) ms"
  let ?as = "apply_stage_events (agents s) ?pre"
  let ?s' = "s\<lparr>agents := ?as\<rparr>"
  have pre_ok: "\<forall>m \<in> set ?pre. \<not> is_final_event m"
    by (auto dest: set_takeWhileD)
  have open': "\<not> wsClosed ?s'" using assms by simp
  have "deliver s ms = deliver s (?pre @ ?post)" by simp
  also have "\<dots> = deliver ?s' ?post"
    using assms pre_ok by (rule deliver_not_final)
  finally have split: "deliver s ms = deliver ?s' ?post" .
  have ag: "agents (deliver s ms) = ?as"
  proof (cases ?post)
    case Nil
    have "deliver s ms = ?s'" by (simp only: split Nil deliver.simps)
    then show ?thesis by simp
  next
    case (Cons fin rest)
    then have "is_final_event fin" by (rule dropWhile_final_head)
    with open' have "deliver ?s' (fin # rest) = onmessage ?s' fin" by (rule deliver_final)
    then show ?thesis
      using \<open>is_final_event fin\<close> by (cases fin) (simp_all add: split Cons)
  qed
  have len: "length (agents (deliver s ms)) = length (agents s)"
    by (simp add: ag apply_stage_events_last_update)
  have each: "\<forall>i < length (agents s).
             agents (deliver s ms) ! i =
               (case last_update (agent_id (agents s ! i)) ?pre of
                  None \<Rightarrow> agents s ! i
                | Some (st, msg) \<Rightarrow> (agents s ! i)\<lparr>status := st, message := msg\<rparr>)"
    by (simp add: ag apply_stage_events_last_update)
  have none: "?post = [] \<longrightarrow> deliver s ms = s\<lparr>agents := agents (deliver s ms)\<rparr>"
  proof
    assume e: "?post = []"
    have "deliver s ms = ?s'" by (simp only: split e deliver.simps)
    then show "deliver s ms = s\<lparr>agents := agents (deliver s ms)\<rparr>" by simp
  qed
  have complete: "\<forall>code rest. ?post = Job_complete code # rest \<longrightarrow>
             deliver s ms =
               s\<lparr>agents := agents (deliver s ms), modernCode := code,
                  isProcessing := False, connected := False, wsClosed := True\<rparr>"
  proof (intro allI impI)
    fix code rest assume p: "?post = Job_complete code # rest"
    have "deliver ?s' (Job_complete code # rest) = onmessage ?s' (Job_complete code)"
      using open' by (rule deliver_final) simp
    then have d: "deliver s ms = onmessage ?s' (Job_complete code)"
      by (simp add: split p)
    show "deliver s ms =
               s\<lparr>agents := agents (deliver s ms), modernCode := code,
                  isProcessing := False, connected := False, wsClosed := True\<rparr>"
      unfolding ag by (simp add: d)
  qed
  have failed: "\<forall>err rest. ?post = Job_error err # rest \<longrightarrow>
             deliver s ms =
               s\<lparr>agents := agents (deliver s ms), error := Some err,
                  isProcessing := False, connected := False, wsClosed := True\<rparr>"
  proof (intro allI impI)
    fix err rest assume p: "?post = Job_error err # rest"
    have "deliver ?s' (Job_error err # rest) = onmessage ?s' (Job_error err)"
      using open' by (rule deliver_final) simp
    then have d: "deliver s ms = onmessage ?s' (Job_error err)"
      by (simp add: split p)
    show "deliver s ms =
               s\<lparr>agents := agents (deliver s ms), error := Some err,
                  isProcessing := False, connected := False, wsClosed := True\<rparr>"
      unfolding ag by (simp add: d)
  qed
  from len each none complete failed show ?thesis by blast
qed

theorem C7_consumer_stream_witness:
  "agents (deliver (initial_page ''cpp'')
     [Agent_update ''archaeologist'' Running None,
      Other_message ''ping'',
      Agent_update ''archaeologist'' Completed (Some ''parsed''),
      Job_complete ''print(1)'',
      Agent_update ''scribe'' Failed None]) ! 0
   = (initial_agents ! 0)\<lparr>status := Completed, message := Some ''parsed''\<rparr>
   \<and> agents (deliver (initial_page ''cpp'')
     [Agent_update ''archaeologist'' Running None,
      Other_message ''ping'',
      Agent_update ''archaeologist'' Completed (Some ''parsed''),
      Job_complete ''print(1)'',
      Agent_update ''scribe'' Failed None]) ! 4
   = initial_agents ! 4
   \<and> modernCode (deliver (initial_page ''cpp'')
     [Agent_update ''archaeologist'' Running None,
      Other_message ''ping'',
      Agent_update ''archaeologist'' Completed (Some ''parsed''),
      Job_complete ''print(1)'',
      Agent_update ''scribe'' Failed None]) = ''print(1)''
   \<and> wsClosed (deliver (initial_page ''cpp'')
     [Agent_update ''archaeologist'' Running None,
      Other_message ''ping'',
      Agent_update ''archaeologist'' Completed (Some ''parsed''),
      Job_complete ''print(1)'',
      Agent_update ''scribe'' Failed None])"
proof -
  let ?ms = "[Agent_update ''archaeologist'' Running None,
      Other_message ''ping'',
      Agent_update ''archaeologist'' Completed (Some ''parsed''),
      Job_complete ''print(1)'',
      Agent_update ''scribe'' Failed None]"
  let ?s = "initial_page ''cpp''"
  have h: "\<not> wsClosed ?s"
    by (simp add: initial_page_def)
  have ags: "agents ?s = initial_agents" and len: "length (agents ?s) = 5"
    by (simp_all add: initial_page_def initial_agents_def)
  have pre: "takeWhile (\<lambda>m. \<not> is_final_event m) ?ms =
      [Agent_update ''archaeologist'' Running None, Other_message ''ping'',
       Agent_update ''archaeologist'' Completed (Some ''parsed'')]"
    by simp
  have post: "dropWhile (\<lambda>m. \<not> is_final_event m) ?ms =
      Job_complete ''print(1)'' # [Agent_update ''scribe'' Failed None]"
    by simp
  have id0: "agent_id (initial_agents ! 0) = ''archaeologist''"
    and id4: "agent_id (initial_agents ! 4) = ''scribe''"
    by (simp_all add: initial_agents_def)
  note main = C7_consumer_stream [OF h, of ?ms]
  from main have each: "\<forall>i < length (agents ?s).
      agents (deliver ?s ?ms) ! i =
        (case last_update (agent_id (agents ?s ! i))
                (takeWhile (\<lambda>m. \<not> is_final_event m) ?ms) of
           None \<Rightarrow> agents ?s ! i
         | Some (st, msg) \<Rightarrow> (agents ?s ! i)\<lparr>status := st, message := msg\<rparr>)"
    by blast
  have a0: "agents (deliver ?s ?ms) ! 0
      = (initial_agents ! 0)\<lparr>status := Completed, message := Some ''parsed''\<rparr>"
    using each [rule_format, of 0] len by (simp only: pre ags id0) simp
  have a4: "agents (deliver ?s ?ms) ! 4 = initial_agents ! 4"
    using each [rule_format, of 4] len by (simp only: pre ags id4) simp
  from main post have d: "deliver ?s ?ms =
      ?s\<lparr>agents := agents (deliver ?s ?ms), modernCode := ''print(1)'',
         isProcessing := False, connected := False, wsClosed := True\<rparr>"
    by blast
  have c: "modernCode (deliver ?s ?ms) = ''print(1)''" and w: "wsClosed (deliver ?s ?ms)"
    by (subst d, simp)+
  from a0 a4 c w show ?thesis by blast
qed

section \<open>Job submission and file upload\<close>

text \<open>
  Claim C6, as stated, fails: the request does not carry the members \<open>source_text\<close>,
  \<open>source_language\<close> and \<open>mode\<close>, and a response that is not \<open>ok\<close> gives the client no
  job identifier and no stream.
\<close>

theorem C6_request_fields_counterexample:
  "map fst (request_body (initial_page ''int main() {}''))
     \<noteq> [''source_text'', ''source_language'', ''file_name'', ''mode'']
   \<and> wsUrl (handleRefactor (initial_page ''int main() {}'') Response_not_ok) = None"
  by (simp add: request_body_def initial_page_def resetAgents_def)

text \<open>
  Claim C6, amended. A submission sends exactly the four members \<open>source_code\<close> (the
  editor's text), \<open>language\<close> (\<open>cpp\<close> or \<open>java\<close>), \<open>file_name\<close> (\<open>input.\<close> followed by the
  language) and \<open>use_mock\<close> (a boolean), in this order. On an \<open>ok\<close> response carrying the
  job identifier \<open>j\<close> the client opens the job's stream at the address ending in \<open>j\<close> and
  stays processing with no error; on a response that is not \<open>ok\<close> it opens no stream,
  shows the error "Failed to create refactoring job" and stops processing.
\<close>

theorem C6_request_fields:
  "map fst (request_body s) = [''source_code'', ''language'', ''file_name'', ''use_mock'']
   \<and> map_of (request_body s) ''source_code'' = Some (JString (legacyCode s))
   \<and> map_of (request_body s) ''language'' = Some (JString (language_str (language s)))
   \<and> language_str (language s) \<in> {''cpp'', ''java''}
   \<and> map_of (request_body s) ''file_name''
        = Some (JString (''input.'' @ language_str (language s)))
   \<and> map_of (request_body s) ''use_mock'' = Some (JBool (useMock s))
   \<and> wsUrl (handleRefactor s (Response_ok (Some j))) = Some (''ws://localhost:8000/api/ws/'' @ j)
   \<and> isProcessing (handleRefactor s (Response_ok (Some j)))
   \<and> error (handleRefactor s (Response_ok (Some j))) = None
   \<and> wsUrl (handleRefactor s Response_not_ok) = wsUrl s
   \<and> error (handleRefactor s Response_not_ok) = Some ''Failed to create refactoring job''
   \<and> \<not> isProcessing (handleRefactor s Response_not_ok)"
proof -
  have lang: "language_str (language s) \<in> {''cpp'', ''java''}"
    by (cases "language s") simp_all
  show ?thesis
    using lang by (simp add: request_body_def resetAgents_def)
qed

text \<open>
  Claim C10 at the file name \<open>java\<close>, which has no extension: \<open>split\<close> returns the whole
  name as its only piece, so the upload switches the language from \<open>cpp\<close> to \<open>java\<close>.
\<close>

theorem C10_no_extension_changes_language:
  "language (initial_page ''int main() {}'') = Cpp
   \<and> split ''java'' CHR ''.'' = [''java'']
   \<and> language (handleFileUpload \<lparr>name = ''java'', text_content = Some ''class A {}''\<rparr>
                 (initial_page ''int main() {}'')) = Java"
  by (simp add: initial_page_def handleFileUpload_def extension_of_def toLowerCase_def
      lower_char_def Let_def)

section \<open>Properties of the Router and the Orchestrator\<close>

lemma run_stage_retry_count [simp]: "retry_count (run_stage b st s) = retry_count s"
  by (cases st) (simp_all add: run_stage_def Let_def split: option.split)

lemma run_stage_history [simp]: "history (run_stage b st s) = history s @ [st]"
  by (cases st) (simp_all add: run_stage_def Let_def split: option.split)

lemma run_stage_pstatus:
  "pstatus (run_stage b st s) =
     (case raises b (length (history s)) of None \<Rightarrow> pstatus s | Some e \<Rightarrow> Job_failed)"
  by (cases st) (simp_all add: run_stage_def Let_def split: option.split)

lemma run_stage_last_stage:
  "last_stage (run_stage b st s) =
     (case raises b (length (history s)) of None \<Rightarrow> Some st | Some e \<Rightarrow> last_stage s)"
  by (cases st) (simp_all add: run_stage_def Let_def split: option.split)

lemma run_stage_generator_runs:
  "generator_runs (run_stage b st s) = generator_runs s + (if st = Generator then 1 else 0)"
  by (simp add: generator_runs_def)

lemma step_retry_count_mono: "retry_count s \<le> retry_count (orchestrator_step m b s)"
  by (simp add: orchestrator_step_def split: Decision.split)

lemma step_inv: "run_inv m s \<Longrightarrow> run_inv m (orchestrator_step m b s)"
  unfolding run_inv_def orchestrator_step_def router_def should_retry_or_proceed_def terminal_def
  by (auto simp: run_stage_pstatus run_stage_last_stage run_stage_generator_runs generator_runs_def
      split: option.splits Stage.splits if_splits)

lemma init_inv: "run_inv m (start (init_state j src lang f))"
  by (simp add: run_inv_def start_def init_state_def generator_runs_def)

lemma orchestrate_inv: "run_inv m s \<Longrightarrow> run_inv m (orchestrate m b n s)"
  by (induction n arbitrary: s) (simp_all add: step_inv)

lemma orchestrate_retry_count_mono: "retry_count s \<le> retry_count (orchestrate m b k s)"
proof (induction k arbitrary: s)
  case 0
  show ?case by simp
next
  case (Suc k)
  have "retry_count s \<le> retry_count (orchestrator_step m b s)"
    by (rule step_retry_count_mono)
  also have "\<dots> \<le> retry_count (orchestrate m b k (orchestrator_step m b s))"
    by (rule Suc.IH)
  finally show ?case by simp
qed

lemma orchestrate_add:
  "orchestrate m b (n + k) s = orchestrate m b k (orchestrate m b n s)"
  by (induction n arbitrary: s) simp_all

lemma step_terminal: "terminal s \<Longrightarrow> orchestrator_step m b s = s"
  by (simp add: orchestrator_step_def router_def)

text \<open>
  A run ends: the number of passes a state is away from a terminal state decreases with
  every pass, so \<open>2 * max_retries + 6\<close> passes always reach a terminal state.
\<close>

lemma step_remaining:
  "\<not> terminal s \<Longrightarrow> retry_count s \<le> m \<Longrightarrow>
     remaining m (orchestrator_step m b s) < remaining m s"
  unfolding remaining_def orchestrator_step_def router_def should_retry_or_proceed_def terminal_def
  by (auto simp: run_stage_pstatus run_stage_last_stage
      split: option.splits Stage.splits if_splits)

lemma orchestrate_reaches_terminal:
  "run_inv m s \<Longrightarrow> remaining m s \<le> n \<Longrightarrow> terminal (orchestrate m b n s)"
proof (induction n arbitrary: s)
  case 0
  then show ?case
    by (auto simp: remaining_def split: if_splits option.splits Stage.splits)
next
  case (Suc n)
  show ?case
  proof (cases "terminal s")
    case True
    then have "orchestrator_step m b s = s" by (rule step_terminal)
    moreover have "remaining m s \<le> n" using True by (simp add: remaining_def)
    ultimately show ?thesis using Suc.IH [OF Suc.prems(1)] by simp
  next
    case False
    have "retry_count s \<le> m" using Suc.prems(1) by (simp add: run_inv_def)
    with False have "remaining m (orchestrator_step m b s) < remaining m s"
      by (rule step_remaining)
    with Suc.prems(2) have "remaining m (orchestrator_step m b s) \<le> n" by simp
    with Suc.IH [OF step_inv [OF Suc.prems(1)]] show ?thesis by simp
  qed
qed

lemma job_terminates:
  "terminal (orchestrate m b (2 * m + 6) (start (init_state j src lang f)))"
proof -
  have "remaining m (start (init_state j src lang f)) \<le> 2 * m + 6"
    by (simp add: remaining_def start_def init_state_def)
  with init_inv show ?thesis by (rule orchestrate_reaches_terminal)
qed

text \<open>
  Claim C1. In every state that is not terminal and in which Validator has just completed
  with result \<open>v\<close>, for every \<open>max_retries\<close>: if \<open>v\<close> passes, the Router selects Documenter; if
  \<open>v\<close> fails and \<open>retry_count < max_retries\<close>, the Router selects Generator and the
  Orchestrator runs it on the state with \<open>retry_count\<close> incremented; if \<open>v\<close> fails and
  \<open>retry_count\<close> is not below \<open>max_retries\<close>, the job ends with status failed, no further
  stage is invoked and the validation result \<open>v\<close> is preserved.
\<close>

theorem C1_router_after_validator:
  assumes "\<not> terminal s"
    and "last_stage s = Some Validator"
    and "validation_result s = Some v"
  shows "(pass v \<longrightarrow>
            router m s = Next Documenter
            \<and> orchestrator_step m b s = run_stage b Documenter s)
       \<and> (\<not> pass v \<and> retry_count s < m \<longrightarrow>
            router m s = Next Generator
            \<and> orchestrator_step m b s
                = run_stage b Generator (s\<lparr>retry_count := retry_count s + 1\<rparr>)
            \<and> retry_count (orchestrator_step m b s) = retry_count s + 1
            \<and> history (orchestrator_step m b s) = history s @ [Generator])
       \<and> (\<not> pass v \<and> \<not> retry_count s < m \<longrightarrow>
            router m s = Terminal Job_failed
            \<and> orchestrator_step m b s = s\<lparr>pstatus := Job_failed\<rparr>
            \<and> pstatus (orchestrator_step m b s) = Job_failed
            \<and> validation_result (orchestrator_step m b s) = Some v
            \<and> history (orchestrator_step m b s) = history s)"
proof -
  have r: "router m s =
      (if pass v then Next Documenter
       else if retry_count s < m then Next Generator else Terminal Job_failed)"
    using assms by (simp add: router_def should_retry_or_proceed_def)
  show ?thesis
    using assms(2,3) by (simp add: r orchestrator_step_def)
qed

theorem C1_router_after_validator_witness:
  "router 3 ((start (init_state ''j'' ''src'' Cpp ''input.cpp''))
       \<lparr>last_stage := Some Validator, validation_result := Some passing_validation\<rparr>)
     = Next Documenter
   \<and> retry_count (orchestrator_step 3 always_failing
        ((start (init_state ''j'' ''src'' Cpp ''input.cpp''))
          \<lparr>last_stage := Some Validator, validation_result := Some failing_validation\<rparr>)) = 1
   \<and> pstatus (orchestrator_step 0 always_failing
        ((start (init_state ''j'' ''src'' Cpp ''input.cpp''))
          \<lparr>last_stage := Some Validator, validation_result := Some failing_validation\<rparr>))
       = Job_failed
   \<and> validation_result (orchestrator_step 0 always_failing
        ((start (init_state ''j'' ''src'' Cpp ''input.cpp''))
          \<lparr>last_stage := Some Validator, validation_result := Some failing_validation\<rparr>))
       = Some failing_validation"
proof -
  let ?s0 = "start (init_state ''j'' ''src'' Cpp ''input.cpp'')"
  let ?sp = "?s0\<lparr>last_stage := Some Validator, validation_result := Some passing_validation\<rparr>"
  let ?sf = "?s0\<lparr>last_stage := Some Validator, validation_result := Some failing_validation\<rparr>"
  have np: "\<not> terminal ?sp" and nf: "\<not> terminal ?sf"
    by (simp_all add: terminal_def start_def init_state_def)
  have lp: "last_stage ?sp = Some Validator" and lf: "last_stage ?sf = Some Validator"
    by simp_all
  have vp: "validation_result ?sp = Some passing_validation"
    and vf: "validation_result ?sf = Some failing_validation"
    by simp_all
  have pp: "pass passing_validation" and pf: "\<not> pass failing_validation"
    by (simp_all add: passing_validation_def failing_validation_def)
  have rc: "retry_count ?sf = 0"
    by (simp add: start_def init_state_def)
  from C1_router_after_validator [OF np lp vp, of 3 always_failing] pp
  have a: "router 3 ?sp = Next Documenter" by blast
  from C1_router_after_validator [OF nf lf vf, of 3 always_failing] pf rc
  have b: "retry_count (orchestrator_step 3 always_failing ?sf) = 1" by simp
  from C1_router_after_validator [OF nf lf vf, of 0 always_failing] pf rc
  have c: "pstatus (orchestrator_step 0 always_failing ?sf) = Job_failed
      \<and> validation_result (orchestrator_step 0 always_failing ?sf) = Some failing_validation"
    by simp
  from a b c show ?thesis by blast
qed

text \<open>
  Claim C3. \<open>retry_count\<close> is 0 in a new job; no stage invocation changes it and no pass of
  the Orchestrator decreases it, so it never decreases along a run; it never exceeds the
  configured maximum; and when Validator has failed with \<open>retry_count\<close> already at the
  maximum, the next pass sets the status to failed and leaves \<open>retry_count\<close> as it is.
\<close>

theorem C3_retry_count_monotone_bounded:
  "retry_count (init_state j src lang f) = 0
   \<and> retry_count (start (init_state j src lang f)) = 0
   \<and> retry_count (run_stage b st s) = retry_count s
   \<and> retry_count s \<le> retry_count (orchestrator_step m b s)
   \<and> retry_count (orchestrate m b n (start (init_state j src lang f)))
       \<le> retry_count (orchestrate m b (n + k) (start (init_state j src lang f)))
   \<and> retry_count (orchestrate m b n (start (init_state j src lang f))) \<le> m
   \<and> (\<not> terminal s \<and> last_stage s = Some Validator \<and> validation_result s = Some v
        \<and> \<not> pass v \<and> m \<le> retry_count s \<longrightarrow>
        pstatus (orchestrator_step m b s) = Job_failed
        \<and> retry_count (orchestrator_step m b s) = retry_count s)"
proof -
  have a: "retry_count (init_state j src lang f) = 0"
    and a': "retry_count (start (init_state j src lang f)) = 0"
    by (simp_all add: init_state_def start_def)
  have c: "retry_count s \<le> retry_count (orchestrator_step m b s)"
    by (rule step_retry_count_mono)
  have d: "retry_count (orchestrate m b n (start (init_state j src lang f)))
       \<le> retry_count (orchestrate m b (n + k) (start (init_state j src lang f)))"
    by (simp add: orchestrate_add orchestrate_retry_count_mono)
  have "run_inv m (orchestrate m b n (start (init_state j src lang f)))"
    using init_inv by (rule orchestrate_inv)
  then have e: "retry_count (orchestrate m b n (start (init_state j src lang f))) \<le> m"
    by (simp add: run_inv_def)
  have g: "pstatus (orchestrator_step m b s) = Job_failed
        \<and> retry_count (orchestrator_step m b s) = retry_count s"
    if "\<not> terminal s" "last_stage s = Some Validator" "validation_result s = Some v"
      "\<not> pass v" "m \<le> retry_count s"
    using that by (simp add: orchestrator_step_def router_def should_retry_or_proceed_def)
  from a a' c d e g show ?thesis by simp
qed

theorem C3_retry_count_monotone_bounded_witness:
  "pstatus (orchestrator_step default_max_retries always_failing
      ((start (init_state ''j'' ''src'' Cpp ''input.cpp''))
         \<lparr>last_stage := Some Validator, validation_result := Some failing_validation,
          retry_count := 3\<rparr>)) = Job_failed
   \<and> retry_count (orchestrator_step default_max_retries always_failing
      ((start (init_state ''j'' ''src'' Cpp ''input.cpp''))
         \<lparr>last_stage := Some Validator, validation_result := Some failing_validation,
          retry_count := 3\<rparr>)) = 3
   \<and> retry_count (run_job default_max_retries always_failing 11) \<le> default_max_retries"
proof -
  let ?s = "(start (init_state ''j'' ''src'' Cpp ''input.cpp''))
         \<lparr>last_stage := Some Validator, validation_result := Some failing_validation,
          retry_count := 3\<rparr>"
  have h: "\<not> terminal ?s \<and> last_stage ?s = Some Validator
      \<and> validation_result ?s = Some failing_validation
      \<and> \<not> pass failing_validation \<and> default_max_retries \<le> retry_count ?s"
    by (simp add: terminal_def start_def init_state_def failing_validation_def
        default_max_retries_def)
  from C3_retry_count_monotone_bounded
    [of "''job''" "''source''" Cpp "''input.cpp''" always_failing _ ?s default_max_retries 11 _
        failing_validation] h
  show ?thesis by (simp add: run_job_def)
qed

section \<open>Properties of the Context Manager\<close>

text \<open>
  Claim C4. The strategy is a function of the token estimate and the configured thresholds
  alone. With thresholds in order, an estimate below the small threshold selects Direct,
  one from the small threshold to the large one selects Windowed, one above the large
  threshold selects Retrieval; at the small threshold itself the selection is Windowed and
  just below it Direct, at the large threshold itself it is Windowed and just above it
  Retrieval. Without an estimate, Windowed is selected and a warning is recorded.
\<close>

theorem C4_strategy_selection:
  assumes "small_threshold cfg \<le> large_threshold cfg"
  shows "(n < small_threshold cfg \<longrightarrow> select_strategy cfg (Some n) = (Direct, []))
       \<and> (small_threshold cfg \<le> n \<and> n \<le> large_threshold cfg \<longrightarrow>
            select_strategy cfg (Some n) = (Windowed, []))
       \<and> (large_threshold cfg < n \<longrightarrow> select_strategy cfg (Some n) = (Retrieval, []))
       \<and> (0 < small_threshold cfg \<longrightarrow>
            select_strategy cfg (Some (small_threshold cfg - 1)) = (Direct, []))
       \<and> select_strategy cfg (Some (small_threshold cfg)) = (Windowed, [])
       \<and> select_strategy cfg (Some (large_threshold cfg)) = (Windowed, [])
       \<and> select_strategy cfg (Some (large_threshold cfg + 1)) = (Retrieval, [])
       \<and> fst (select_strategy cfg None) = Windowed
       \<and> snd (select_strategy cfg None) \<noteq> []
       \<and> choose_strategy cfg estimate_tokens source
           = select_strategy cfg (estimate_tokens source)"
  using assms by (simp add: select_strategy_def choose_strategy_def)

theorem C4_strategy_selection_witness:
  "small_threshold default_config = 4000 \<and> large_threshold default_config = 16000
   \<and> select_strategy default_config (Some 3999) = (Direct, [])
   \<and> select_strategy default_config (Some 4000) = (Windowed, [])
   \<and> select_strategy default_config (Some 16000) = (Windowed, [])
   \<and> select_strategy default_config (Some 16001) = (Retrieval, [])
   \<and> fst (select_strategy default_config None) = Windowed"
proof -
  have th: "small_threshold default_config = 4000" "large_threshold default_config = 16000"
    by (simp_all add: default_config_def)
  then have h: "small_threshold default_config \<le> large_threshold default_config"
    by simp
  from C4_strategy_selection [OF h, of 3999] th
  have a: "select_strategy default_config (Some 3999) = (Direct, [])" by simp
  from C4_strategy_selection [OF h, of 4000] th
  have b: "select_strategy default_config (Some 4000) = (Windowed, [])" by simp
  from C4_strategy_selection [OF h, of 16000] th
  have c: "select_strategy default_config (Some 16000) = (Windowed, [])" by simp
  from C4_strategy_selection [OF h, of 16001] th
  have d: "select_strategy default_config (Some 16001) = (Retrieval, [])" by simp
  from C4_strategy_selection [OF h, of 0]
  have e: "fst (select_strategy default_config None) = Windowed" by blast
  from th a b c d e show ?thesis by blast
qed

section \<open>Properties of the sliding window\<close>

lemma chunks_from_more:
  assumes "st + sz < length xs" and "ov < sz"
  shows "chunks_from sz ov st xs =
     \<lparr>chunk_start = st, chunk_end = st + sz, chunk_tokens = take sz (drop st xs)\<rparr>
       # chunks_from sz ov (st + sz - ov) xs"
  by (subst chunks_from.simps) (simp add: assms)

lemma chunks_from_done:
  assumes "\<not> (st + sz < length xs \<and> ov < sz)"
  shows "chunks_from sz ov st xs =
     [\<lparr>chunk_start = st, chunk_end = length xs, chunk_tokens = drop st xs\<rparr>]"
  by (subst chunks_from.simps) (simp only: assms if_False)

lemma chunks_from_hd:
  "chunks_from sz ov st xs \<noteq> []
   \<and> hd (chunks_from sz ov st xs) =
     (if st + sz < length xs \<and> ov < sz
      then \<lparr>chunk_start = st, chunk_end = st + sz, chunk_tokens = take sz (drop st xs)\<rparr>
      else \<lparr>chunk_start = st, chunk_end = length xs, chunk_tokens = drop st xs\<rparr>)"
proof (cases "st + sz < length xs \<and> ov < sz")
  case True
  then show ?thesis by (simp add: chunks_from_more)
next
  case False
  then show ?thesis by (simp add: chunks_from_done)
qed

lemma chunks_from_rest_spans:
  "concat (map (\<lambda>d. drop ov (chunk_tokens d)) (chunks_from sz ov st xs)) = drop (st + ov) xs"
proof (induction sz ov st xs rule: chunks_from.induct)
  case (1 sz ov st xs)
  show ?case
  proof (cases "st + sz < length xs \<and> ov < sz")
    case True
    then have more: "st + sz < length xs" and lt: "ov < sz" by simp_all
    have eq: "st + sz - ov + ov = st + sz" using lt by simp
    have "concat (map (\<lambda>d. drop ov (chunk_tokens d)) (chunks_from sz ov st xs))
        = drop ov (take sz (drop st xs)) @ drop (st + sz) xs"
      using "1.IH" [OF True] by (simp add: chunks_from_more [OF more lt] eq)
    also have "drop ov (take sz (drop st xs)) = take (sz - ov) (drop (st + ov) xs)"
      by (simp add: drop_take add.commute)
    also have "drop (st + sz) xs = drop (sz - ov) (drop (st + ov) xs)"
      using lt by (simp add: add.commute)
    also have "take (sz - ov) (drop (st + ov) xs) @ drop (sz - ov) (drop (st + ov) xs)
        = drop (st + ov) xs"
      by (rule append_take_drop_id)
    finally show ?thesis .
  next
    case False
    then show ?thesis by (simp add: chunks_from_done add.commute)
  qed
qed

lemma reassemble_chunks_from:
  assumes lt: "ov < sz"
  shows "reassemble ov (chunks_from sz ov 0 xs) = xs"
proof (cases "sz < length xs")
  case True
  have eq: "sz - ov + ov = sz" using lt by simp
  have "chunks_from sz ov 0 xs =
      \<lparr>chunk_start = 0, chunk_end = sz, chunk_tokens = take sz xs\<rparr>
        # chunks_from sz ov (sz - ov) xs"
    using chunks_from_more [of 0 sz xs ov] True lt by simp
  then have "reassemble ov (chunks_from sz ov 0 xs) = take sz xs @ drop sz xs"
    by (simp add: reassemble_def chunks_from_rest_spans eq)
  then show ?thesis by simp
next
  case False
  then have "chunks_from sz ov 0 xs =
      [\<lparr>chunk_start = 0, chunk_end = length xs, chunk_tokens = xs\<rparr>]"
    using chunks_from_done [of 0 sz xs ov] by simp
  then show ?thesis by (simp add: reassemble_def)
qed

lemma chunks_from_spans:
  "st \<le> length xs \<Longrightarrow> c \<in> set (chunks_from sz ov st xs) \<Longrightarrow>
     chunk_start c \<le> chunk_end c \<and> chunk_end c \<le> length xs
     \<and> chunk_tokens c = take (chunk_end c - chunk_start c) (drop (chunk_start c) xs)"
proof (induction sz ov st xs rule: chunks_from.induct)
  case (1 sz ov st xs)
  show ?case
  proof (cases "st + sz < length xs \<and> ov < sz")
    case True
    then have more: "st + sz < length xs" and lt: "ov < sz" by simp_all
    from "1.prems"(2)
    have "c = \<lparr>chunk_start = st, chunk_end = st + sz, chunk_tokens = take sz (drop st xs)\<rparr>
        \<or> c \<in> set (chunks_from sz ov (st + sz - ov) xs)"
      by (simp add: chunks_from_more [OF more lt])
    then show ?thesis
    proof
      assume "c = \<lparr>chunk_start = st, chunk_end = st + sz, chunk_tokens = take sz (drop st xs)\<rparr>"
      then show ?thesis using more by simp
    next
      assume in_rest: "c \<in> set (chunks_from sz ov (st + sz - ov) xs)"
      have "st + sz - ov \<le> length xs" using more by simp
      from "1.IH" [OF True this in_rest] show ?thesis .
    qed
  next
    case False
    from "1.prems"(2)
    have "c = \<lparr>chunk_start = st, chunk_end = length xs, chunk_tokens = drop st xs\<rparr>"
      by (simp add: chunks_from_done [OF False])
    then show ?thesis using "1.prems"(1) by simp
  qed
qed

lemma chunks_from_last:
  "chunk_end (last (chunks_from sz ov st xs)) = length xs"
proof (induction sz ov st xs rule: chunks_from.induct)
  case (1 sz ov st xs)
  show ?case
  proof (cases "st + sz < length xs \<and> ov < sz")
    case True
    then have more: "st + sz < length xs" and lt: "ov < sz" by simp_all
    have ne: "chunks_from sz ov (st + sz - ov) xs \<noteq> []"
      by (simp add: chunks_from_hd)
    show ?thesis
      using "1.IH" [OF True] ne by (simp add: chunks_from_more [OF more lt])
  next
    case False
    then show ?thesis by (simp add: chunks_from_done)
  qed
qed

lemma chunks_from_adjacent:
  "Suc i < length (chunks_from sz ov st xs) \<Longrightarrow>
     length (chunk_tokens (chunks_from sz ov st xs ! i)) = sz
     \<and> chunk_start (chunks_from sz ov st xs ! i) < chunk_start (chunks_from sz ov st xs ! Suc i)
     \<and> chunk_start (chunks_from sz ov st xs ! Suc i) + ov = chunk_end (chunks_from sz ov st xs ! i)
     \<and> length (take ov (chunk_tokens (chunks_from sz ov st xs ! Suc i))) = ov
     \<and> take ov (chunk_tokens (chunks_from sz ov st xs ! Suc i))
         = drop (sz - ov) (chunk_tokens (chunks_from sz ov st xs ! i))"
proof (induction sz ov st xs arbitrary: i rule: chunks_from.induct)
  case (1 sz ov st xs)
  show ?case
  proof (cases "st + sz < length xs \<and> ov < sz")
    case False
    then have "length (chunks_from sz ov st xs) = 1"
      by (simp add: chunks_from_done)
    with "1.prems" show ?thesis by simp
  next
    case True
    then have more: "st + sz < length xs" and lt: "ov < sz" by simp_all
    let ?c = "\<lparr>chunk_start = st, chunk_end = st + sz, chunk_tokens = take sz (drop st xs)\<rparr>"
    let ?st' = "st + sz - ov"
    let ?rest = "chunks_from sz ov ?st' xs"
    have unf: "chunks_from sz ov st xs = ?c # ?rest"
      using more lt by (rule chunks_from_more)
    show ?thesis
    proof (cases i)
      case (Suc j)
      with "1.prems" have "Suc j < length ?rest" by (simp add: unf)
      have r: "chunks_from sz ov st xs ! i = ?rest ! j"
        "chunks_from sz ov st xs ! Suc i = ?rest ! Suc j"
        by (simp_all add: unf Suc)
      from "1.IH" [OF True \<open>Suc j < length ?rest\<close>] show ?thesis
        unfolding r .
    next
      case 0
      have ne: "?rest \<noteq> []" by (simp add: chunks_from_hd)
      have hd_rest: "?rest ! 0 = hd ?rest" using ne by (simp add: hd_conv_nth)
      have hd_start: "chunk_start (hd ?rest) = ?st'"
        by (simp add: chunks_from_hd)
      have hd_take: "take ov (chunk_tokens (hd ?rest)) = take ov (drop ?st' xs)"
        using lt by (simp add: chunks_from_hd min_def)
      have len: "length (take ov (drop ?st' xs)) = ov"
        using more lt by simp
      have "drop (sz - ov) (take sz (drop st xs)) = take ov (drop (sz - ov) (drop st xs))"
        using lt by (simp add: drop_take)
      also have "\<dots> = take ov (drop ?st' xs)"
        using lt by (simp add: add.commute)
      finally have sh: "drop (sz - ov) (take sz (drop st xs)) = take ov (drop ?st' xs)" .
      have l0: "length (take sz (drop st xs)) = sz" using more by simp
      have s1: "length (chunk_tokens ?c) = sz" using l0 by simp
      have s2: "chunk_start ?c < chunk_start (hd ?rest)" using lt by (simp add: hd_start)
      have s3: "chunk_start (hd ?rest) + ov = chunk_end ?c" using lt by (simp add: hd_start)
      have s4: "length (take ov (chunk_tokens (hd ?rest))) = ov" using len by (simp only: hd_take)
      have s5: "take ov (chunk_tokens (hd ?rest)) = drop (sz - ov) (chunk_tokens ?c)"
        using sh by (simp add: hd_take)
      have i0: "chunks_from sz ov st xs ! i = ?c" by (simp add: unf 0)
      have i1: "chunks_from sz ov st xs ! Suc i = hd ?rest" by (simp add: unf 0 hd_rest)
      show ?thesis
        unfolding i0 i1 using s1 s2 s3 s4 s5 by blast
    qed
  qed
qed

text \<open>
  Claim C5. For every text and every configuration whose overlap is smaller than its chunk
  size, the Windowed strategy returns a non-empty sequence of chunks such that:
  concatenating the first chunk and, of every later chunk, what follows its first
  \<open>overlap\<close> tokens gives the text back; every chunk but the last has exactly
  \<open>chunk_size\<close> tokens, starts before the next one, and ends exactly \<open>overlap\<close> tokens
  after the start of the next one, whose first \<open>overlap\<close> tokens are its own last
  \<open>overlap\<close> tokens; the first chunk starts at offset 0 and the last ends at the end of
  the text; and the tokens of each chunk are the tokens of the text between its recorded
  start and end offsets.
\<close>

theorem C5_windowed_chunking:
  assumes "chunk_overlap_tokens cfg < chunk_size_tokens cfg"
  shows "\<exists>cs. windowed cfg xs = Some cs
       \<and> reassemble (chunk_overlap_tokens cfg) cs = xs
       \<and> cs \<noteq> [] \<and> chunk_start (hd cs) = 0 \<and> chunk_end (last cs) = length xs
       \<and> (\<forall>i. Suc i < length cs \<longrightarrow>
             length (chunk_tokens (cs ! i)) = chunk_size_tokens cfg
             \<and> chunk_start (cs ! i) < chunk_start (cs ! Suc i)
             \<and> chunk_start (cs ! Suc i) + chunk_overlap_tokens cfg = chunk_end (cs ! i)
             \<and> length (take (chunk_overlap_tokens cfg) (chunk_tokens (cs ! Suc i)))
                 = chunk_overlap_tokens cfg
             \<and> take (chunk_overlap_tokens cfg) (chunk_tokens (cs ! Suc i))
                 = drop (chunk_size_tokens cfg - chunk_overlap_tokens cfg)
                     (chunk_tokens (cs ! i)))
       \<and> (\<forall>i < length cs.
             chunk_start (cs ! i) \<le> chunk_end (cs ! i) \<and> chunk_end (cs ! i) \<le> length xs
             \<and> chunk_tokens (cs ! i)
                 = take (chunk_end (cs ! i) - chunk_start (cs ! i))
                     (drop (chunk_start (cs ! i)) xs))"
proof -
  let ?sz = "chunk_size_tokens cfg" and ?ov = "chunk_overlap_tokens cfg"
  let ?cs = "chunks_from ?sz ?ov 0 xs"
  have w: "windowed cfg xs = Some ?cs"
    using assms by (simp add: windowed_def)
  have r: "reassemble ?ov ?cs = xs"
    using assms by (rule reassemble_chunks_from)
  have ne: "?cs \<noteq> []" and h: "chunk_start (hd ?cs) = 0"
    by (simp_all add: chunks_from_hd)
  have l: "chunk_end (last ?cs) = length xs"
    by (rule chunks_from_last)
  have adj: "\<forall>i. Suc i < length ?cs \<longrightarrow>
             length (chunk_tokens (?cs ! i)) = ?sz
             \<and> chunk_start (?cs ! i) < chunk_start (?cs ! Suc i)
             \<and> chunk_start (?cs ! Suc i) + ?ov = chunk_end (?cs ! i)
             \<and> length (take ?ov (chunk_tokens (?cs ! Suc i))) = ?ov
             \<and> take ?ov (chunk_tokens (?cs ! Suc i))
                 = drop (?sz - ?ov) (chunk_tokens (?cs ! i))"
    using chunks_from_adjacent by blast
  have sp: "\<forall>i < length ?cs.
             chunk_start (?cs ! i) \<le> chunk_end (?cs ! i) \<and> chunk_end (?cs ! i) \<le> length xs
             \<and> chunk_tokens (?cs ! i)
                 = take (chunk_end (?cs ! i) - chunk_start (?cs ! i))
                     (drop (chunk_start (?cs ! i)) xs)"
  proof (intro allI impI)
    fix i assume "i < length ?cs"
    then have "?cs ! i \<in> set ?cs" by (rule nth_mem)
    with chunks_from_spans [of 0 xs "?cs ! i" ?sz ?ov]
    show "chunk_start (?cs ! i) \<le> chunk_end (?cs ! i) \<and> chunk_end (?cs ! i) \<le> length xs
             \<and> chunk_tokens (?cs ! i)
                 = take (chunk_end (?cs ! i) - chunk_start (?cs ! i))
                     (drop (chunk_start (?cs ! i)) xs)"
      by simp
  qed
  from w r ne h l adj sp show ?thesis by blast
qed

theorem C5_windowed_chunking_witness:
  "windowed (default_config\<lparr>chunk_size_tokens := 4, chunk_overlap_tokens := 1\<rparr>) ''abcdefghijk''
     = Some [\<lparr>chunk_start = 0, chunk_end = 4, chunk_tokens = ''abcd''\<rparr>,
             \<lparr>chunk_start = 3, chunk_end = 7, chunk_tokens = ''defg''\<rparr>,
             \<lparr>chunk_start = 6, chunk_end = 10, chunk_tokens = ''ghij''\<rparr>,
             \<lparr>chunk_start = 9, chunk_end = 11, chunk_tokens = ''jk''\<rparr>]
   \<and> reassemble 1
       (the (windowed (default_config\<lparr>chunk_size_tokens := 4, chunk_overlap_tokens := 1\<rparr>)
          ''abcdefghijk'')) = ''abcdefghijk''
   \<and> (1::nat) < 4"
proof -
  let ?cfg = "default_config\<lparr>chunk_size_tokens := 4, chunk_overlap_tokens := 1\<rparr>"
  have h: "chunk_overlap_tokens ?cfg < chunk_size_tokens ?cfg"
    by simp
  have ev: "windowed ?cfg ''abcdefghijk''
     = Some [\<lparr>chunk_start = 0, chunk_end = 4, chunk_tokens = ''abcd''\<rparr>,
             \<lparr>chunk_start = 3, chunk_end = 7, chunk_tokens = ''defg''\<rparr>,
             \<lparr>chunk_start = 6, chunk_end = 10, chunk_tokens = ''ghij''\<rparr>,
             \<lparr>chunk_start = 9, chunk_end = 11, chunk_tokens = ''jk''\<rparr>]"
    by (simp add: windowed_def chunks_from.simps)
  from C5_windowed_chunking [OF h, of "''abcdefghijk''"]
  obtain cs where "windowed ?cfg ''abcdefghijk'' = Some cs"
    and "reassemble (chunk_overlap_tokens ?cfg) cs = ''abcdefghijk''"
    by blast
  then have "reassemble 1 (the (windowed ?cfg ''abcdefghijk'')) = ''abcdefghijk''"
    by simp
  with ev show ?thesis by simp
qed

end
